theory Spec2Isabelle
  imports Complex_Main "HOL-Library.AList"
begin

section \<open>Texts\<close>

text \<open>
  A Python \<open>str\<close> is a sequence of code points. A text is modelled as a \<open>string\<close>, each
  \<open>char\<close> standing for the code point of the same number, so the model covers the texts
  whose code points lie below 256. In that range \<open>\d\<close> matches the ten ASCII digits,
  \<open>\s\<close> matches the code points for which \<open>str.isspace\<close> holds, and \<open>str.lower\<close> maps
  one character to one character.
\<close>

definition is_digit :: "char \<Rightarrow> bool" where
  "is_digit c \<longleftrightarrow> c \<in> set ''0123456789''"

definition is_space :: "char \<Rightarrow> bool" where
  "is_space c \<longleftrightarrow>
     (of_char c :: nat) \<in> set [9, 10, 11, 12, 13, 28, 29, 30, 31, 32, 133, 160]"

definition lower_char :: "char \<Rightarrow> char" where
  "lower_char c =
     (let n = (of_char c :: nat)
      in if (65 \<le> n \<and> n \<le> 90) \<or> (192 \<le> n \<and> n \<le> 222 \<and> n \<noteq> 215)
         then char_of (n + 32) else c)"

definition lower :: "string \<Rightarrow> string" where
  "lower text = map lower_char text"

section \<open>The fragment of \<open>re\<close> that the patterns use\<close>

text \<open>
  A character set is what one pattern position accepts: a literal character, \<open>\d\<close>,
  \<open>\s\<close>, or a bracket expression such as \<open>[:\s]\<close>.
\<close>

datatype cset = Lit char | Digit | Space | Either cset cset

fun in_cset :: "cset \<Rightarrow> char \<Rightarrow> bool" where
  "in_cset (Lit a) c = (c = a)"
| "in_cset Digit c = is_digit c"
| "in_cset Space c = is_space c"
| "in_cset (Either a b) c = (in_cset a c \<or> in_cset b c)"

text \<open>
  \<open>Str w\<close> is a run of literal characters, \<open>Many0 X\<close> is \<open>X*\<close>, \<open>Many1 X\<close> is \<open>X+\<close>,
  \<open>Maybe X\<close> is \<open>X?\<close> (all greedy), \<open>Cat\<close> is juxtaposition, \<open>Or\<close> is \<open>(?:a|b)\<close>,
  \<open>Capture\<close> is a capturing group (the patterns have one, group 1), \<open>Bol\<close> is \<open>^\<close> and
  \<open>Eol\<close> is \<open>$\<close>, both without the MULTILINE flag.
\<close>

datatype regex =
    Str string
  | Many0 cset
  | Many1 cset
  | Maybe cset
  | Cat regex regex
  | Or regex regex
  | Capture regex
  | Bol
  | Eol

text \<open>
  The state of a match attempt: the position in the text, the text from that position on,
  and the content of group 1 when the group has taken part.
\<close>

type_synonym mstate = "nat \<times> string \<times> string option"

text \<open>
  A greedy repetition tries the longest run first and gives characters back one at a
  time: \<open>star\<close> lists where the repetition can stop, in the order the engine tries them.
\<close>

fun star :: "cset \<Rightarrow> nat \<Rightarrow> string \<Rightarrow> (nat \<times> string) list" where
  "star X p [] = [(p, [])]"
| "star X p (c # s) =
     (if in_cset X c then star X (Suc p) s @ [(p, c # s)] else [(p, c # s)])"

text \<open>
  \<open>run r st\<close> lists every way in which \<open>r\<close> can match from state \<open>st\<close>, in the order in
  which the backtracking engine finds them. The match the engine reports is the first.
  \<open>$\<close> holds at the end of the text and before a newline that ends the text.
\<close>

fun run :: "regex \<Rightarrow> mstate \<Rightarrow> mstate list" where
  "run (Str w) (p, s, g) =
     (if take (length w) s = w then [(p + length w, drop (length w) s, g)] else [])"
| "run (Many0 X) (p, s, g) = map (\<lambda>(p', s'). (p', s', g)) (star X p s)"
| "run (Many1 X) (p, s, g) =
     (case s of
        [] \<Rightarrow> []
      | c # s' \<Rightarrow>
          if in_cset X c then map (\<lambda>(p', s'). (p', s', g)) (star X (Suc p) s') else [])"
| "run (Maybe X) (p, s, g) =
     (case s of
        [] \<Rightarrow> []
      | c # s' \<Rightarrow> if in_cset X c then [(Suc p, s', g)] else []) @ [(p, s, g)]"
| "run (Cat a b) st = concat (map (run b) (run a st))"
| "run (Or a b) st = run a st @ run b st"
| "run (Capture r) (p, s, g) =
     map (\<lambda>(p', s', _). (p', s', Some (take (p' - p) s))) (run r (p, s, g))"
| "run Bol (p, s, g) = (if p = 0 then [(p, s, g)] else [])"
| "run Eol (p, s, g) = (if s = [] \<or> s = [CHR 0x0A] then [(p, s, g)] else [])"

text \<open>
  \<open>re.search\<close> tries the start positions from left to right, the end of the text
  included, and returns the first match found, or \<open>None\<close>.
\<close>

fun search_from :: "regex \<Rightarrow> nat \<Rightarrow> string \<Rightarrow> mstate option" where
  "search_from r p [] = (case run r (p, [], None) of [] \<Rightarrow> None | m # _ \<Rightarrow> Some m)"
| "search_from r p (c # s) =
     (case run r (p, c # s, None) of [] \<Rightarrow> search_from r (Suc p) s | m # _ \<Rightarrow> Some m)"

definition re_search :: "regex \<Rightarrow> string \<Rightarrow> mstate option" where
  "re_search r text = search_from r 0 text"

definition group1 :: "mstate \<Rightarrow> string option" where
  "group1 m = snd (snd m)"

section \<open>Number extraction\<close>

datatype error = TypeError | ValueError

text \<open>
  \<open>int(x)\<close> for the values group 1 can hold. \<open>None\<close> is a TypeError. A string is read
  in base ten; Python also accepts surrounding whitespace, a sign and underscores, none
  of which a run of digits contains, and any other string is a ValueError. Python
  integers are unbounded, and no limit is put on the number of digits.
\<close>

definition digits_value :: "string \<Rightarrow> int" where
  "digits_value ds = foldl (\<lambda>n c. 10 * n + (int (of_char c) - 48)) 0 ds"

definition py_int :: "string option \<Rightarrow> error + int" where
  "py_int x =
     (case x of
        None \<Rightarrow> Inl TypeError
      | Some ds \<Rightarrow>
          if ds \<noteq> [] \<and> list_all is_digit ds then Inr (digits_value ds) else Inl ValueError)"

definition patterns :: "regex list" where
  "patterns =
    [Cat (Capture (Many1 Digit)) (Cat (Many0 Space) (Cat (Str ''finger'') (Maybe (Lit CHR ''s'')))),
     Cat (Capture (Many1 Digit)) (Cat (Many0 Space) (Cat (Str ''coin'') (Maybe (Lit CHR ''s'')))),
     Cat (Capture (Many1 Digit)) (Cat (Many0 Space) (Str ''rebar'')),
     Cat (Capture (Many1 Digit)) (Cat (Many0 Space) (Cat (Str ''piece'') (Maybe (Lit CHR ''s'')))),
     Cat (Capture (Many1 Digit)) (Cat (Many0 Space) (Cat (Str ''item'') (Maybe (Lit CHR ''s'')))),
     Cat (Str ''count'') (Cat (Many1 (Either (Lit CHR '':'') Space)) (Capture (Many1 Digit))),
     Cat (Str ''total'') (Cat (Many1 (Either (Lit CHR '':'') Space)) (Capture (Many1 Digit))),
     Cat (Str ''there '') (Cat (Or (Str ''are'') (Str ''is''))
       (Cat (Str '' '') (Capture (Many1 Digit)))),
     Cat Bol (Cat (Capture (Many1 Digit)) Eol)]"

text \<open>
  The loop over the patterns: the first pattern that matches the lower-cased text
  decides, and its group 1 is converted with \<open>int\<close>.
\<close>

fun first_match :: "regex list \<Rightarrow> string \<Rightarrow> error + int option" where
  "first_match [] text = Inr None"
| "first_match (pattern # rest) text =
     (case re_search pattern (lower text) of
        Some m \<Rightarrow> (case py_int (group1 m) of Inl e \<Rightarrow> Inl e | Inr n \<Rightarrow> Inr (Some n))
      | None \<Rightarrow> first_match rest text)"

definition extract_number :: "string \<Rightarrow> error + int option" where
  "extract_number text = first_match patterns text"

section \<open>Persisted results\<close>

text \<open>
  One entry of a run's \<open>results\<close> list, as \<open>run_single_test\<close> writes it. \<open>image\<close> and
  \<open>status\<close> are always there; an entry for a missing file has no other key, so each of
  the other fields is optional, \<open>None\<close> standing for a key that is absent. When present,
  \<open>response_text\<close> is a string, \<open>code_executed\<close> the list of code blocks and
  \<open>images_generated\<close> a count; \<open>ground_truth\<close> is an integer or \<open>null\<close>, and \<open>None\<close>
  stands for \<open>null\<close> as well, which is what \<open>dict.get\<close> returns in both cases.
\<close>

record query_result =
  image_name :: string
  status :: string
  response_text :: "string option"
  code_executed :: "string list option"
  images_generated :: "int option"
  ground_truth :: "int option"

record test_run =
  test_name :: string
  code_execution :: bool
  results :: "query_result list"


record tally =
  on_correct :: nat
  off_correct :: nat
  total_with_gt :: nat


section \<open>Accuracy aggregation\<close>



text \<open>\<open>r.get("response_text", "")\<close>\<close>

definition text_of :: "query_result \<Rightarrow> string" where
  "text_of r = (case response_text r of None \<Rightarrow> [] | Some t \<Rightarrow> t)"

text \<open>
  The scoring loop over \<open>zip(code_on, code_off)\<close>. The ground truth is read from the
  entry of the run with code execution.
\<close>

fun score :: "(query_result \<times> query_result) list \<Rightarrow> tally \<Rightarrow> error + tally" where
  "score [] t = Inr t"
| "score ((on_result, off_result) # rest) t =
     (case ground_truth on_result of
        None \<Rightarrow> score rest t
      | Some gt \<Rightarrow>
          (case extract_number (text_of on_result) of
             Inl e \<Rightarrow> Inl e
           | Inr on_extracted \<Rightarrow>
               (case extract_number (text_of off_result) of
                  Inl e \<Rightarrow> Inl e
                | Inr off_extracted \<Rightarrow>
                    score rest
                      \<lparr>on_correct = on_correct t + (if on_extracted = Some gt then 1 else 0),
                       off_correct = off_correct t + (if off_extracted = Some gt then 1 else 0),
                       total_with_gt = total_with_gt t + 1\<rparr>)))"







section \<open>Report rendering\<close>

text \<open>\<open>str\<close> of an integer, as an f-string inserts it.\<close>

fun str_nat :: "nat \<Rightarrow> string" where
  "str_nat n =
     (if n < 10 then [char_of (48 + n)] else str_nat (n div 10) @ [char_of (48 + n mod 10)])"

declare str_nat.simps [simp del]

definition str_int :: "int \<Rightarrow> string" where
  "str_int i = (if i < 0 then CHR ''-'' # str_nat (nat (- i)) else str_nat (nat i))"

definition str_extracted :: "int option \<Rightarrow> string" where
  "str_extracted x = (case x of None \<Rightarrow> ''None'' | Some i \<Rightarrow> str_int i)"



text \<open>
  The three status glyphs (U+2713, U+26A0 and U+2717) lie outside the range of \<open>char\<close>;
  each is written as the bytes of its UTF-8 encoding.
\<close>

definition check_mark :: string where
  "check_mark = [CHR 0xE2, CHR 0x9C, CHR 0x93]"

definition warning_sign :: string where
  "warning_sign = [CHR 0xE2, CHR 0x9A, CHR 0xA0]"

definition ballot_x :: string where
  "ballot_x = [CHR 0xE2, CHR 0x9C, CHR 0x97]"


definition status_icon :: "string \<Rightarrow> string" where
  "status_icon st =
     (if st = ''success'' then check_mark else if st = ''skipped'' then warning_sign else ballot_x)"

text \<open>
  The ground-truth line of an entry. The guard is \<open>if r.get("ground_truth")\<close>, the truth
  value of the field: \<open>None\<close> and \<open>0\<close> are both false.
\<close>

definition ground_truth_lines :: "query_result \<Rightarrow> error + string list" where
  "ground_truth_lines r =
     (case ground_truth r of
        None \<Rightarrow> Inr []
      | Some gt \<Rightarrow>
          if gt = 0 then Inr []
          else (case extract_number (text_of r) of
                  Inl e \<Rightarrow> Inl e
                | Inr extracted \<Rightarrow>
                    Inr [''  - Ground truth: '' @ str_int gt @ '', Extracted: ''
                         @ str_extracted extracted @ '' ''
                         @ (if extracted = Some gt then check_mark else ballot_x)]))"

definition response_lines :: "query_result \<Rightarrow> string list" where
  "response_lines r =
     (case response_text r of
        None \<Rightarrow> []
      | Some t \<Rightarrow>
          if t = [] then []
          else [''  - Response: ''
                @ map (\<lambda>c. if c = CHR 0x0A then CHR '' '' else c) (take 200 t) @ ''...''])"

definition code_lines :: "query_result \<Rightarrow> string list" where
  "code_lines r =
     (case code_executed r of
        None \<Rightarrow> []
      | Some blocks \<Rightarrow>
          if blocks = [] then []
          else [''  - Code executed: '' @ str_nat (length blocks) @ '' blocks''])"

definition image_lines :: "query_result \<Rightarrow> string list" where
  "image_lines r =
     (case images_generated r of
        None \<Rightarrow> []
      | Some n \<Rightarrow> if n = 0 then [] else [''  - Annotated images generated: '' @ str_int n])"

text \<open>The lines that one entry adds to the report, in order.\<close>

definition result_lines :: "query_result \<Rightarrow> error + string list" where
  "result_lines r =
     (case ground_truth_lines r of
        Inl e \<Rightarrow> Inl e
      | Inr gt_line \<Rightarrow>
          Inr ([''**'' @ image_name r @ ''** '' @ status_icon (status r)]
               @ gt_line @ response_lines r @ code_lines r @ image_lines r @ [[]]))"





section \<open>Notions used in the statements and proofs\<close>

text \<open>
  Three syntactic properties of a pattern, used to reason about all nine at once:
  the pattern has no group; every match of the pattern sets group 1 to what \<open>\d+\<close>
  matched; every match of the pattern reads at least one digit.
\<close>

fun keeps_group :: "regex \<Rightarrow> bool" where
  "keeps_group (Capture r) = False"
| "keeps_group (Cat a b) = (keeps_group a \<and> keeps_group b)"
| "keeps_group (Or a b) = (keeps_group a \<and> keeps_group b)"
| "keeps_group r = True"

fun sets_group :: "regex \<Rightarrow> bool" where
  "sets_group (Capture r) = (r = Many1 Digit)"
| "sets_group (Cat a b) = (sets_group b \<or> (sets_group a \<and> keeps_group b))"
| "sets_group r = False"


text \<open>
  The claim about repeated records, in its own words: the results that count for a test
  and a mode are those of the last record of the input with that test name and that
  mode, and the empty sequence when there is no such record.
\<close>

definition last_results :: "test_run list \<Rightarrow> string \<Rightarrow> bool \<Rightarrow> query_result list" where
  "last_results rs name mode =
     (case filter (\<lambda>r. test_name r = name \<and> code_execution r = mode) rs of
        [] \<Rightarrow> []
      | x # xs \<Rightarrow> results (last (x # xs)))"

text \<open>
  The two kinds of entry that \<open>run_single_test\<close> appends: one for an image that was
  queried (here for a response without code blocks or generated images) and one for an
  image whose file was missing.
\<close>

definition answered :: "string \<Rightarrow> string \<Rightarrow> string \<Rightarrow> int option \<Rightarrow> query_result" where
  "answered image_file st response gt =
     \<lparr>image_name = image_file, status = st, response_text = Some response,
      code_executed = Some [], images_generated = Some 0, ground_truth = gt\<rparr>"


section \<open>The matching engine\<close>


lemma upt_Suc_shift: "[0..<Suc n] = 0 # map Suc [0..<n]"
  by (simp add: map_Suc_upt upt_conv_Cons del: upt_Suc)

lemma star_formula:
  "star X p s = rev (map (\<lambda>k. (p + k, drop k s)) [0..<Suc (length (takeWhile (in_cset X) s))])"
proof (induction s arbitrary: p)
  case Nil
  show ?case by simp
next
  case (Cons c s)
  show ?case
  proof (cases "in_cset X c")
    case False
    then show ?thesis by simp
  next
    case True
    let ?n = "length (takeWhile (in_cset X) s)"
    have "star X p (c # s) = star X (Suc p) s @ [(p, c # s)]"
      using True by simp
    also have "\<dots> = rev ((p, c # s) # map (\<lambda>k. (Suc p + k, drop k s)) [0..<Suc ?n])"
      by (simp only: Cons rev.simps)
    also have "(p, c # s) # map (\<lambda>k. (Suc p + k, drop k s)) [0..<Suc ?n]
        = map (\<lambda>k. (p + k, drop k (c # s))) (0 # map Suc [0..<Suc ?n])"
      by (simp add: comp_def del: upt_Suc)
    also have "0 # map Suc [0..<Suc ?n] = [0..<Suc (Suc ?n)]"
      by (rule upt_Suc_shift [symmetric])
    also have "Suc ?n = length (takeWhile (in_cset X) (c # s))"
      using True by simp
    finally show ?thesis .
  qed
qed

lemma star_set:
  "(p', s') \<in> set (star X p s) \<longleftrightarrow>
     (\<exists>k \<le> length (takeWhile (in_cset X) s). p' = p + k \<and> s' = drop k s)"
  by (auto simp: star_formula simp del: upt_Suc)

lemma star_hd:
  "star X p s = (p + length (takeWhile (in_cset X) s), drop (length (takeWhile (in_cset X) s)) s)
     # rev (map (\<lambda>k. (p + k, drop k s)) [0..<length (takeWhile (in_cset X) s)])"
  by (simp add: star_formula)

lemma many1_set:
  "(p', s', g') \<in> set (run (Many1 X) (p, s, g)) \<longleftrightarrow>
     g' = g \<and> (\<exists>k. 1 \<le> k \<and> k \<le> length (takeWhile (in_cset X) s) \<and> p' = p + k \<and> s' = drop k s)"
proof (cases s)
  case Nil
  then show ?thesis by simp
next
  case (Cons c s0)
  show ?thesis
  proof (cases "in_cset X c")
    case False
    then show ?thesis using Cons by simp
  next
    case True
    have "(p', s', g') \<in> set (run (Many1 X) (p, s, g)) \<longleftrightarrow>
        g' = g \<and> (p', s') \<in> set (star X (Suc p) s0)"
      using Cons True by auto
    also have "\<dots> \<longleftrightarrow> g' = g \<and> (\<exists>j \<le> length (takeWhile (in_cset X) s0). p' = Suc p + j \<and> s' = drop j s0)"
      by (simp only: star_set)
    also have "\<dots> \<longleftrightarrow> g' = g \<and> (\<exists>k. 1 \<le> k \<and> k \<le> length (takeWhile (in_cset X) s) \<and> p' = p + k \<and> s' = drop k s)"
    proof -
      have "(\<exists>j \<le> length (takeWhile (in_cset X) s0). p' = Suc p + j \<and> s' = drop j s0)
        \<longleftrightarrow> (\<exists>k. 1 \<le> k \<and> k \<le> length (takeWhile (in_cset X) s) \<and> p' = p + k \<and> s' = drop k s)"
        (is "?L \<longleftrightarrow> ?R")
      proof
        assume ?L
        then obtain j where "j \<le> length (takeWhile (in_cset X) s0)" "p' = Suc p + j" "s' = drop j s0"
          by blast
        then have "1 \<le> Suc j \<and> Suc j \<le> length (takeWhile (in_cset X) s) \<and> p' = p + Suc j \<and> s' = drop (Suc j) s"
          using Cons True by simp
        then show ?R by blast
      next
        assume ?R
        then obtain k where k: "1 \<le> k" "k \<le> length (takeWhile (in_cset X) s)" "p' = p + k" "s' = drop k s"
          by blast
        then obtain j where "k = Suc j" by (cases k) auto
        with k have "j \<le> length (takeWhile (in_cset X) s0) \<and> p' = Suc p + j \<and> s' = drop j s0"
          using Cons True by simp
        then show ?L by blast
      qed
      then show ?thesis by simp
    qed
    finally show ?thesis .
  qed
qed

lemma keeps_group_run:
  "keeps_group r \<Longrightarrow> (p', s', g') \<in> set (run r (p, s, g)) \<Longrightarrow> g' = g"
proof (induction r arbitrary: p s g p' s' g')
  case (Cat a b)
  then show ?case by (auto; blast)
qed (auto split: if_splits list.splits)



lemma in_cset_Digit: "in_cset Digit = is_digit"
  by (rule ext) simp


lemma capture_set:
  "(p', s', g') \<in> set (run (Capture r) (p, s, g)) \<longleftrightarrow>
     g' = Some (take (p' - p) s) \<and> (\<exists>g0. (p', s', g0) \<in> set (run r (p, s, g)))"
  by force

lemma sets_group_run:
  "sets_group r \<Longrightarrow> (p', s', g') \<in> set (run r (p, s, g)) \<Longrightarrow>
     \<exists>ds. g' = Some ds \<and> ds \<noteq> [] \<and> list_all is_digit ds"
proof (induction r arbitrary: p s g p' s' g')
  case (Cat a b)
  from Cat.prems(2) obtain p1 s1 g1 where
    a: "(p1, s1, g1) \<in> set (run a (p, s, g))" and b: "(p', s', g') \<in> set (run b (p1, s1, g1))"
    by auto
  show ?case
  proof (cases "sets_group b")
    case True
    then show ?thesis using Cat.IH(2) b by blast
  next
    case False
    then have "sets_group a" "keeps_group b" using Cat.prems(1) by auto
    then show ?thesis using Cat.IH(1)[OF _ a] keeps_group_run[OF _ b] by blast
  qed
next
  case (Capture r)
  then have r: "r = Many1 Digit" by simp
  from Capture.prems(2) obtain g0 where
    m: "(p', s', g0) \<in> set (run (Many1 Digit) (p, s, g))" and g': "g' = Some (take (p' - p) s)"
    unfolding r capture_set by blast
  from m obtain k where k: "1 \<le> k" "k \<le> length (takeWhile is_digit s)" "p' = p + k"
    by (auto simp only: many1_set in_cset_Digit)
  have "take k s = take k (takeWhile is_digit s)"
    using k(2)
    by (metis takeWhile_dropWhile_id take_append append_Nil2 diff_is_0_eq take_0)
  then have "list_all is_digit (take k s)"
    by (metis list_all_iff in_set_takeD set_takeWhileD)
  moreover have "take k s \<noteq> []"
    using k by (cases s) auto
  ultimately show ?case using g' k(3) by simp
qed simp_all

subsection \<open>Searching\<close>

lemma search_from_Some:
  "search_from r p s = Some m \<Longrightarrow> \<exists>q t. m \<in> set (run r (q, t, None))"
proof (induction s arbitrary: p)
  case Nil
  then have "m \<in> set (run r (p, [], None))"
    by (cases "run r (p, [], None)") auto
  then show ?case by blast
next
  case (Cons c s)
  show ?case
  proof (cases "run r (p, c # s, None)")
    case Nil
    then show ?thesis using Cons by simp
  next
    case (Cons m' ms)
    then have "m \<in> set (run r (p, c # s, None))" using Cons.prems by simp
    then show ?thesis by blast
  qed
qed

lemma search_from_None_iff:
  "search_from r p s = None \<longleftrightarrow> (\<forall>q \<le> length s. run r (p + q, drop q s, None) = [])"
proof (induction s arbitrary: p)
  case Nil
  then show ?case by (cases "run r (p, [], None)") auto
next
  case (Cons c s)
  show ?case
  proof (cases "run r (p, c # s, None)")
    case Nil
    have "(\<forall>q \<le> length (c # s). run r (p + q, drop q (c # s), None) = [])
       \<longleftrightarrow> (\<forall>q \<le> length s. run r (Suc p + q, drop q s, None) = [])" (is "?L \<longleftrightarrow> ?R")
    proof
      assume l: ?L
      show ?R
      proof (intro allI impI)
        fix q assume "q \<le> length s"
        then show "run r (Suc p + q, drop q s, None) = []"
          using l[rule_format, of "Suc q"] by simp
      qed
    next
      assume r: ?R
      show ?L
      proof (intro allI impI)
        fix q assume q: "q \<le> length (c # s)"
        show "run r (p + q, drop q (c # s), None) = []"
        proof (cases q)
          case 0
          then show ?thesis using Nil by simp
        next
          case (Suc j)
          then show ?thesis using q r[rule_format, of j] by simp
        qed
      qed
    qed
    then show ?thesis using Nil Cons.IH[of "Suc p"] by simp
  next
    case (Cons m ms)
    then have "run r (p + 0, drop 0 (c # s), None) \<noteq> []" by simp
    then have "\<not> (\<forall>q \<le> length (c # s). run r (p + q, drop q (c # s), None) = [])"
      by blast
    then show ?thesis using Cons by simp
  qed
qed



subsection \<open>Extraction returns a value\<close>

lemma py_int_digits:
  "ds \<noteq> [] \<Longrightarrow> list_all is_digit ds \<Longrightarrow> py_int (Some ds) = Inr (digits_value ds)"
  by (simp add: py_int_def)

lemma first_match_total:
  "list_all sets_group ps \<Longrightarrow> \<exists>v. first_match ps text = Inr v"
proof (induction ps)
  case Nil
  then show ?case by simp
next
  case (Cons r ps)
  show ?case
  proof (cases "re_search r (lower text)")
    case None
    then show ?thesis using Cons by simp
  next
    case (Some m)
    then obtain q t where "m \<in> set (run r (q, t, None))"
      unfolding re_search_def using search_from_Some by blast
    moreover obtain p' s' g' where m: "m = (p', s', g')" by (cases m)
    moreover have "sets_group r" using Cons.prems by simp
    ultimately obtain ds where "g' = Some ds" "ds \<noteq> []" "list_all is_digit ds"
      using sets_group_run by blast
    then have "py_int (group1 m) = Inr (digits_value ds)"
      using m by (simp add: group1_def py_int_digits)
    then show ?thesis using Some by simp
  qed
qed

lemma patterns_set_group: "list_all sets_group patterns"
  by (simp add: patterns_def)


lemma extract_number_total: "\<exists>v. extract_number text = Inr v"
  unfolding extract_number_def by (rule first_match_total [OF patterns_set_group])


section \<open>Lower-casing\<close>

lemma is_digit_code: "is_digit c \<Longrightarrow> 48 \<le> (of_char c :: nat) \<and> (of_char c :: nat) \<le> 57"
  by (auto simp: is_digit_def)

lemma lower_char_of_digit: "is_digit c \<Longrightarrow> lower_char c = c"
  by (auto simp: is_digit_def lower_char_def)

lemma lower_char_of_space: "is_space c \<Longrightarrow> lower_char c = c"
  by (auto simp: is_space_def lower_char_def)

lemma lower_char_code:
  "lower_char c \<noteq> c \<Longrightarrow> 97 \<le> (of_char (lower_char c) :: nat)"
  by (auto simp: lower_char_def Let_def split: if_splits)

lemma lower_char_digit: "is_digit (lower_char c) \<Longrightarrow> lower_char c = c"
  using is_digit_code [of "lower_char c"] lower_char_code [of c] by fastforce

lemma lower_char_newline: "lower_char c = CHR 0x0A \<Longrightarrow> c = CHR 0x0A"
  using lower_char_code [of c] by fastforce

lemma lower_digits: "list_all is_digit (lower t) \<Longrightarrow> lower t = t"
  unfolding lower_def by (induction t) (auto intro: lower_char_digit)

lemma lower_of_digits: "list_all is_digit ds \<Longrightarrow> lower ds = ds"
  unfolding lower_def by (induction ds) (auto simp: lower_char_of_digit)

lemma lower_append: "lower (a @ b) = lower a @ lower b"
  by (simp add: lower_def)


section \<open>Texts that no pattern matches\<close>





section \<open>A number followed by a word\<close>

lemma many1_hd:
  assumes "1 \<le> length (takeWhile (in_cset X) s)"
  shows "\<exists>ms. run (Many1 X) (p, s, g) =
           (p + length (takeWhile (in_cset X) s), drop (length (takeWhile (in_cset X) s)) s, g) # ms"
proof (cases s)
  case Nil
  then show ?thesis using assms by simp
next
  case (Cons c s0)
  then have c: "in_cset X c" using assms by (auto split: if_splits)
  then show ?thesis using Cons by (simp add: star_hd)
qed


lemma cat_first:
  assumes "run a st = x # xs" and "run b x \<noteq> []"
  shows "\<exists>y ys. run (Cat a b) st = y # ys \<and> y \<in> set (run b x)"
proof -
  obtain y ys where "run b x = y # ys" using assms(2) by (cases "run b x") auto
  then show ?thesis using assms(1) by simp
qed

lemma takeWhile_digits:
  assumes "list_all is_digit ds" and "rest = [] \<or> \<not> is_digit (hd rest)"
  shows "takeWhile is_digit (ds @ rest) = ds"
proof -
  have "takeWhile is_digit rest = []" using assms(2) by (cases rest) auto
  then show ?thesis using assms(1) by (simp add: list_all_iff)
qed

lemma digits_then:
  assumes ds: "ds \<noteq> []" "list_all is_digit ds"
    and rest: "rest = [] \<or> \<not> is_digit (hd rest)"
    and B: "keeps_group B" "run B (p + length ds, rest, Some ds) \<noteq> []"
  shows "\<exists>p' s' ms. run (Cat (Capture (Many1 Digit)) B) (p, ds @ rest, g) = (p', s', Some ds) # ms"
proof -
  have tw: "takeWhile (in_cset Digit) (ds @ rest) = ds"
    unfolding in_cset_Digit using ds(2) rest by (rule takeWhile_digits)
  then have "1 \<le> length (takeWhile (in_cset Digit) (ds @ rest))"
    using ds(1) by (cases ds) auto
  from many1_hd [OF this, of p g] obtain ms where
    "run (Many1 Digit) (p, ds @ rest, g) = (p + length ds, rest, g) # ms"
    unfolding tw by auto
  then have "run (Capture (Many1 Digit)) (p, ds @ rest, g) =
      (p + length ds, rest, Some ds) # map (\<lambda>(p', s', _). (p', s', Some (take (p' - p) (ds @ rest)))) ms"
    by (simp del: run.simps(3))
  from cat_first [OF this B(2)] obtain y ys where
    y: "run (Cat (Capture (Many1 Digit)) B) (p, ds @ rest, g) = y # ys"
       "y \<in> set (run B (p + length ds, rest, Some ds))"
    by blast
  obtain p' s' g' where "y = (p', s', g')" by (cases y)
  with y keeps_group_run [OF B(1)] have "y = (p', s', Some ds)" by blast
  with y(1) show ?thesis by blast
qed











section \<open>The pattern for a text that is a number\<close>

lemma bol_later: "0 < p \<Longrightarrow> run (Cat Bol r) (p, s, g) = []"
  by simp

lemma search_bol:
  "re_search (Cat Bol r) s = None \<longleftrightarrow> run r (0, s, None) = []"
proof -
  have "(\<forall>q \<le> length s. run (Cat Bol r) (0 + q, drop q s, None) = []) \<longleftrightarrow>
      run (Cat Bol r) (0, s, None) = []" (is "?L \<longleftrightarrow> ?R")
  proof
    assume ?L
    from this [rule_format, of 0] show ?R by simp
  next
    assume r: ?R
    show ?L
    proof (intro allI impI)
      fix q assume "q \<le> length s"
      show "run (Cat Bol r) (0 + q, drop q s, None) = []"
        using r by (cases q) simp_all
    qed
  qed
  then show ?thesis unfolding re_search_def search_from_None_iff by simp
qed

lemma cat_set:
  "y \<in> set (run (Cat a b) st) \<longleftrightarrow> (\<exists>x \<in> set (run a st). y \<in> set (run b x))"
  by auto

lemma take_digits:
  assumes "k \<le> length (takeWhile is_digit s)"
  shows "list_all is_digit (take k s)"
proof -
  have "take k s = take k (takeWhile is_digit s)"
    using assms
    by (metis takeWhile_dropWhile_id take_append append_Nil2 diff_is_0_eq take_0)
  then show ?thesis
    by (metis list_all_iff in_set_takeD set_takeWhileD)
qed

lemma whole_number_run:
  "run (Cat (Capture (Many1 Digit)) Eol) (0, s, None) \<noteq> [] \<longleftrightarrow>
     (\<exists>ds. ds \<noteq> [] \<and> list_all is_digit ds \<and> (s = ds \<or> s = ds @ [CHR 0x0A]))"
  (is "?L \<longleftrightarrow> ?R")
proof
  assume ?L
  then obtain y where "y \<in> set (run (Cat (Capture (Many1 Digit)) Eol) (0, s, None))"
    using hd_in_set by blast
  then obtain x where x: "x \<in> set (run (Capture (Many1 Digit)) (0, s, None))"
    and y: "y \<in> set (run Eol x)"
    unfolding cat_set by blast
  obtain p1 s1 g1 where x1: "x = (p1, s1, g1)" by (cases x)
  from x obtain g0 where "(p1, s1, g0) \<in> set (run (Many1 Digit) (0, s, None))"
    unfolding x1 capture_set by blast
  then obtain k where k: "1 \<le> k" "k \<le> length (takeWhile is_digit s)" "s1 = drop k s"
    by (auto simp only: many1_set in_cset_Digit)
  from y have e: "s1 = [] \<or> s1 = [CHR 0x0A]"
    unfolding x1 by (auto split: if_splits)
  have "take k s \<noteq> []" using k by (cases s) auto
  moreover have "list_all is_digit (take k s)" using k(2) by (rule take_digits)
  moreover have "s = take k s @ s1" using k(3) by simp
  ultimately show ?R using e by (metis append_Nil2)
next
  assume ?R
  then obtain ds where ds: "ds \<noteq> []" "list_all is_digit ds"
    and s: "s = ds \<or> s = ds @ [CHR 0x0A]"
    by blast
  define rest where "rest = drop (length ds) s"
  have rest: "rest = [] \<or> rest = [CHR 0x0A]" and s': "s = ds @ rest"
    using s unfolding rest_def by auto
  have "rest = [] \<or> \<not> is_digit (hd rest)"
    using rest by (auto simp: is_digit_def)
  moreover have "run Eol (0 + length ds, rest, Some ds) \<noteq> []"
    using rest by auto
  ultimately obtain p' t' ms where
    "run (Cat (Capture (Many1 Digit)) Eol) (0, ds @ rest, None) = (p', t', Some ds) # ms"
    using digits_then [OF ds, of rest Eol 0 None] by auto
  then show ?L unfolding s' by (simp del: run.simps)
qed

lemma lower_whole_number:
  "(\<exists>ds. ds \<noteq> [] \<and> list_all is_digit ds \<and> (lower t = ds \<or> lower t = ds @ [CHR 0x0A])) \<longleftrightarrow>
   (\<exists>ds. ds \<noteq> [] \<and> list_all is_digit ds \<and> (t = ds \<or> t = ds @ [CHR 0x0A]))"
  (is "?L \<longleftrightarrow> ?R")
proof
  assume ?R
  then obtain ds where ds: "ds \<noteq> []" "list_all is_digit ds" "t = ds \<or> t = ds @ [CHR 0x0A]"
    by blast
  have "lower [CHR 0x0A] = [CHR 0x0A]" by (simp add: lower_def lower_char_def)
  then have "lower t = ds \<or> lower t = ds @ [CHR 0x0A]"
    using ds(3) lower_of_digits [OF ds(2)] by (auto simp: lower_append)
  then show ?L using ds by blast
next
  assume ?L
  then obtain ds where ds: "ds \<noteq> []" "list_all is_digit ds"
    and l: "lower t = ds \<or> lower t = ds @ [CHR 0x0A]"
    by blast
  from l show ?R
  proof
    assume "lower t = ds"
    then have "t = ds" using ds(2) lower_digits by metis
    then show ?R using ds by blast
  next
    assume a: "lower t = ds @ [CHR 0x0A]"
    then have "t \<noteq> []" by (auto simp: lower_def)
    then obtain u c where t: "t = u @ [c]" by (metis rev_exhaust)
    with a have "lower u = ds" "lower_char c = CHR 0x0A"
      by (simp_all add: lower_def)
    then have "u = ds" "c = CHR 0x0A"
      using ds(2) lower_digits lower_char_newline by metis+
    then show ?R using ds t by blast
  qed
qed

text \<open>
  Claim C7, amended. The last pattern matches exactly the texts that are a number and
  nothing else, or a number followed by one newline that ends the text; then group 1 is
  the number.
\<close>

theorem whole_number_pattern:
  "patterns ! 8 = Cat Bol (Cat (Capture (Many1 Digit)) Eol)
   \<and> (re_search (patterns ! 8) (lower t) \<noteq> None \<longleftrightarrow>
        (\<exists>ds. ds \<noteq> [] \<and> list_all is_digit ds \<and> (t = ds \<or> t = ds @ [CHR 0x0A])))"
proof
  show p8: "patterns ! 8 = Cat Bol (Cat (Capture (Many1 Digit)) Eol)"
    by (simp add: patterns_def)
  show "re_search (patterns ! 8) (lower t) \<noteq> None \<longleftrightarrow>
        (\<exists>ds. ds \<noteq> [] \<and> list_all is_digit ds \<and> (t = ds \<or> t = ds @ [CHR 0x0A]))"
    unfolding p8 search_bol whole_number_run lower_whole_number ..
qed

theorem whole_number_pattern_witness:
  "re_search (patterns ! 8) (lower ''42'') \<noteq> None \<and> re_search (patterns ! 8) (lower ''42 '') = None"
proof -
  have "\<exists>ds. ds \<noteq> [] \<and> list_all is_digit ds \<and> (''42'' = ds \<or> ''42'' = ds @ [CHR 0x0A])"
    by (rule exI [of _ "''42''"]) (simp add: is_digit_def)
  moreover have "\<not> (\<exists>ds. ds \<noteq> [] \<and> list_all is_digit ds \<and> (''42 '' = ds \<or> ''42 '' = ds @ [CHR 0x0A]))"
    by (auto simp: is_digit_def)
  ultimately show ?thesis
    using whole_number_pattern [of "''42''"] whole_number_pattern [of "''42 ''"] by blast
qed

theorem whole_number_pattern_counterexample:
  "re_search (patterns ! 8) (lower (''5'' @ [CHR 0x0A])) = Some (1, [CHR 0x0A], Some ''5'')
   \<and> extract_number (''5'' @ [CHR 0x0A]) = Inr (Some 5)"
  by code_simp

section \<open>The order of the patterns\<close>








section \<open>The scoring loop\<close>








section \<open>Tests without ground truth\<close>

lemma str_nat_nonempty: "str_nat n \<noteq> []"
  by (subst str_nat.simps) simp







section \<open>Sequences of unequal length\<close>




section \<open>Grouping the records\<close>





lemma last_results_Nil: "last_results [] name mode = []"
  by (simp add: last_results_def)









section \<open>The report\<close>








lemma ground_truth_line_shown:
  assumes "ground_truth r = Some gt" and "gt \<noteq> 0"
  shows "\<exists>extracted. extract_number (text_of r) = Inr extracted
           \<and> ground_truth_lines r =
               Inr [''  - Ground truth: '' @ str_int gt @ '', Extracted: ''
                    @ str_extracted extracted @ '' ''
                    @ (if extracted = Some gt then check_mark else ballot_x)]"
proof -
  obtain x where "extract_number (text_of r) = Inr x" using extract_number_total by blast
  then show ?thesis using assms by (simp add: ground_truth_lines_def)
qed

text \<open>
  Claim C8 at an entry whose ground truth is 0. The scoring loop counts the entry, as one
  with a ground truth that both modes answered correctly; the report shows no ground
  truth line for it.
\<close>

theorem ground_truth_zero_omitted:
  "ground_truth (answered ''coins_0.jpg'' ''success'' ''0 coins'' (Some 0)) = Some 0
   \<and> score [(answered ''coins_0.jpg'' ''success'' ''0 coins'' (Some 0),
              answered ''coins_0.jpg'' ''success'' ''0 coins'' (Some 0))]
        \<lparr>on_correct = 0, off_correct = 0, total_with_gt = 0\<rparr>
      = Inr \<lparr>on_correct = 1, off_correct = 1, total_with_gt = 1\<rparr>
   \<and> result_lines (answered ''coins_0.jpg'' ''success'' ''0 coins'' (Some 0))
      = Inr [''**coins_0.jpg** '' @ check_mark, ''  - Response: 0 coins...'', []]
   \<and> result_lines (answered ''coins_1.jpg'' ''success'' ''1 coin'' (Some 1))
      = Inr [''**coins_1.jpg** '' @ check_mark,
             ''  - Ground truth: 1, Extracted: 1 '' @ check_mark,
             ''  - Response: 1 coin...'', []]"
  by code_simp

end
